theory Spec2Isabelle
  imports Complex_Main
begin

section \<open>Exact rationals and host values\<close>

text \<open>
  The package computes with the \<^verbatim>\<open>Rational\<close> and \<^verbatim>\<open>Integer\<close> classes of
  \<^verbatim>\<open>@ratmath/core\<close>, which are imported and not part of this repository. A
  \<^verbatim>\<open>Rational\<close> is an exact fraction of two BigInts kept in lowest terms with a
  positive denominator, so it is modelled by the type \<^typ>\<open>rat\<close>; \<^verbatim>\<open>multiply\<close>,
  \<^verbatim>\<open>add\<close>, \<^verbatim>\<open>negate\<close> and \<^verbatim>\<open>compare\<close> are the field operations and the order
  of \<^typ>\<open>rat\<close>. A BigInt is an \<^typ>\<open>int\<close>.
\<close>

definition numerator :: "rat \<Rightarrow> int" where
  \<comment> \<open>Modelled from the spec: the \<^verbatim>\<open>numerator\<close> accessor of the external Rational
      class, the numerator of the fraction in lowest terms with positive denominator.\<close>
  "numerator r = fst (quotient_of r)"

definition Rational :: "int \<Rightarrow> int \<Rightarrow> rat" where
  \<comment> \<open>Modelled from the spec: the constructor \<^verbatim>\<open>new Rational(n, d)\<close> of the external
      class, which reduces the fraction to lowest terms.\<close>
  "Rational n d = Fract n d"

definition toRational :: "rat \<Rightarrow> rat" where
  \<comment> \<open>\<^verbatim>\<open>toRational\<close> returns a Rational as it is and lifts an Integer or a BigInt
      \<^verbatim>\<open>v\<close> to \<^verbatim>\<open>v/1\<close>; both are the same element of \<^typ>\<open>rat\<close>. Its branch
      for a JavaScript number, which it floors, is outside the model: the arguments
      here are exact rationals.\<close>
  "toRational val = val"

datatype error = Error string

record polynomial =
  coeffs :: "rat list"
  degree :: int
  variable :: "string option"
  base :: "rat option"

datatype js_value =
    Undefined
  | Sequence "rat list"
  | PolyObj polynomial
  | RatFuncObj js_value js_value
  | StringV string

text \<open>
  \<^verbatim>\<open>extractCoeffs\<close>: a sequence gives its values, an object with a \<^verbatim>\<open>coeffs\<close>
  decoration gives the values of that sequence (the recursive call, which lands in the
  first case), anything else throws.
\<close>

fun extractCoeffs :: "js_value \<Rightarrow> error + rat list" where
  "extractCoeffs (Sequence vs) = Inr (map toRational vs)"
| "extractCoeffs (PolyObj p) = Inr (map toRational (coeffs p))"
| "extractCoeffs _ = Inl (Error ''Expected polynomial or coefficient sequence'')"

definition makeCoeffSequence :: "rat list \<Rightarrow> rat list" where
  "makeCoeffSequence cs = map (\<lambda>c. c) cs"

section \<open>Coefficient arrays\<close>

text \<open>
  \<^verbatim>\<open>trimCoeffs\<close>: \<^verbatim>\<open>end\<close> starts at the last index and steps down while it is
  positive and the coefficient there is zero; the result is \<^verbatim>\<open>slice(0, end + 1)\<close>.
\<close>

function trim_loop :: "rat list \<Rightarrow> int \<Rightarrow> int" where
  "trim_loop cs end' =
     (if end' > 0 \<and> numerator (cs ! nat end') = 0 then trim_loop cs (end' - 1) else end')"
  by pat_completeness auto
termination
  by (relation "measure (\<lambda>(cs, e). nat e)") auto

declare trim_loop.simps [simp del]

definition trimCoeffs :: "rat list \<Rightarrow> rat list" where
  "trimCoeffs cs = take (nat (trim_loop cs (int (length cs) - 1) + 1)) cs"

text \<open>
  \<^verbatim>\<open>hornerEval\<close>: the empty array evaluates to zero; otherwise the accumulator starts
  at the last coefficient and the index runs from \<^verbatim>\<open>length - 2\<close> down to \<^verbatim>\<open>0\<close>.
  The counter of \<open>horner_loop\<close> is \<^verbatim>\<open>i + 1\<close>, the number of iterations left.
\<close>

fun horner_loop :: "rat list \<Rightarrow> rat \<Rightarrow> nat \<Rightarrow> rat \<Rightarrow> rat" where
  "horner_loop cs xRat 0 result = result"
| "horner_loop cs xRat (Suc i) result = horner_loop cs xRat i (result * xRat + cs ! i)"

definition hornerEval :: "rat list \<Rightarrow> rat \<Rightarrow> rat" where
  "hornerEval cs x =
     (if length cs = 0 then 0
      else let xRat = toRational x
           in horner_loop cs xRat (length cs - 1) (cs ! (length cs - 1)))"

text \<open>
  \<^verbatim>\<open>synthDivide\<close>: the coefficients are reversed to descending order, the running
  values are pushed onto \<^verbatim>\<open>result\<close> for \<^verbatim>\<open>i = 1 .. n - 1\<close>, the last one is the
  remainder and the others, reversed, are the quotient.
\<close>

record synth_result =
  quotient :: "rat list"
  remainder :: rat

function synth_loop :: "rat list \<Rightarrow> rat \<Rightarrow> nat \<Rightarrow> nat \<Rightarrow> rat list \<Rightarrow> rat list" where
  "synth_loop descCoeffs cRat n i result =
     (if i < n
      then synth_loop descCoeffs cRat n (i + 1)
             (result @ [result ! (i - 1) * cRat + descCoeffs ! i])
      else result)"
  by pat_completeness auto
termination
  by (relation "measure (\<lambda>(d, c, n, i, r). n - i)") auto

declare synth_loop.simps [simp del]

definition synthDivide :: "rat list \<Rightarrow> rat \<Rightarrow> synth_result" where
  "synthDivide cs c =
     (if length cs = 0 then \<lparr>quotient = [], remainder = 0\<rparr>
      else let cRat = toRational c;
               n = length cs;
               descCoeffs = rev cs;
               result = synth_loop descCoeffs cRat n 1 [descCoeffs ! 0]
           in \<lparr>quotient = rev (take (n - 1) result), remainder = result ! (n - 1)\<rparr>)"

lemma synth_loop_length:
  "length result = i \<Longrightarrow> i \<le> n \<Longrightarrow> length (synth_loop d c n i result) = n"
proof (induction d c n i result rule: synth_loop.induct)
  case (1 d c n i result)
  show ?case
  proof (cases "i < n")
    case True
    then show ?thesis using 1 by (subst synth_loop.simps) simp
  next
    case False
    then show ?thesis using 1 by (subst synth_loop.simps) simp
  qed
qed

lemma synthDivide_quotient_length:
  "cs \<noteq> [] \<Longrightarrow> length (quotient (synthDivide cs c)) = length cs - 1"
  by (simp add: synthDivide_def Let_def synth_loop_length Suc_leI)

section \<open>Polynomial handlers\<close>

text \<open>
  The handlers read their polynomial argument as \<^verbatim>\<open>extractCoeffs(poly?.coeffs || poly)\<close>:
  the \<^verbatim>\<open>coeffs\<close> sequence of a polynomial object, or the argument itself.
\<close>

fun coeffs_or_self :: "js_value \<Rightarrow> js_value" where
  "coeffs_or_self (PolyObj p) = Sequence (coeffs p)"
| "coeffs_or_self v = v"

text \<open>
  \<^verbatim>\<open>Poly\<close>: the constructor. The variable name is \<^verbatim>\<open>varName?.value || varName || "x"\<close>,
  so a missing or empty name gives \<^verbatim>\<open>"x"\<close>; the name is modelled as a plain string,
  not as a string object. The \<^verbatim>\<open>degree\<close> is a JavaScript number
  that can be \<^verbatim>\<open>-1\<close>, hence an \<^typ>\<open>int\<close>.
\<close>

definition Poly :: "js_value \<Rightarrow> string option \<Rightarrow> error + polynomial" where
  "Poly coeffs' varName =
     (case extractCoeffs coeffs' of
        Inl e \<Rightarrow> Inl e
      | Inr coeffArray \<Rightarrow>
          let trimmed = trimCoeffs coeffArray;
              degree' = int (length trimmed) - 1;
              variable' = (case varName of
                             None \<Rightarrow> ''x''
                           | Some v \<Rightarrow> if v = [] then ''x'' else v)
          in Inr \<lparr>coeffs = makeCoeffSequence trimmed, degree = degree',
                   variable = Some variable', base = None\<rparr>)"

text \<open>
  \<^verbatim>\<open>PolyCoeff\<close>: \<^verbatim>\<open>idx = Number(n)\<close>; the conversion keeps the sign of \<^verbatim>\<open>n\<close> and,
  array lengths being below \<^verbatim>\<open>2^32\<close>, its order against the length, so the index is
  modelled by the integer itself.
\<close>

definition PolyCoeff :: "js_value \<Rightarrow> int \<Rightarrow> error + rat" where
  "PolyCoeff poly n =
     (case extractCoeffs (coeffs_or_self poly) of
        Inl e \<Rightarrow> Inl e
      | Inr cs \<Rightarrow>
          let idx = n
          in if idx < 0 \<or> idx \<ge> int (length cs) then Inr (Rational 0 1)
             else Inr (cs ! nat idx))"

definition PolyEval :: "js_value \<Rightarrow> rat \<Rightarrow> error + rat" where
  "PolyEval poly x =
     (case extractCoeffs (coeffs_or_self poly) of
        Inl e \<Rightarrow> Inl e
      | Inr cs \<Rightarrow> Inr (hornerEval cs x))"

text \<open>
  \<^verbatim>\<open>PolyMul\<close>: an empty operand gives the zero polynomial with degree \<^verbatim>\<open>-1\<close>;
  otherwise the convolution is accumulated in place by two nested loops and trimmed.
\<close>

function mul_inner :: "rat list \<Rightarrow> rat list \<Rightarrow> nat \<Rightarrow> nat \<Rightarrow> rat list \<Rightarrow> rat list" where
  "mul_inner pCoeffs qCoeffs i j result =
     (if j < length qCoeffs
      then mul_inner pCoeffs qCoeffs i (j + 1)
             (result[i + j := result ! (i + j) + pCoeffs ! i * qCoeffs ! j])
      else result)"
  by pat_completeness auto
termination
  by (relation "measure (\<lambda>(p, q, i, j, r). length q - j)") auto

declare mul_inner.simps [simp del]

function mul_outer :: "rat list \<Rightarrow> rat list \<Rightarrow> nat \<Rightarrow> rat list \<Rightarrow> rat list" where
  "mul_outer pCoeffs qCoeffs i result =
     (if i < length pCoeffs
      then mul_outer pCoeffs qCoeffs (i + 1) (mul_inner pCoeffs qCoeffs i 0 result)
      else result)"
  by pat_completeness auto
termination
  by (relation "measure (\<lambda>(p, q, i, r). length p - i)") auto

declare mul_outer.simps [simp del]

definition PolyMul :: "js_value \<Rightarrow> js_value \<Rightarrow> error + polynomial" where
  "PolyMul p q =
     (case extractCoeffs (coeffs_or_self p) of
        Inl e \<Rightarrow> Inl e
      | Inr pCoeffs \<Rightarrow>
         (case extractCoeffs (coeffs_or_self q) of
            Inl e \<Rightarrow> Inl e
          | Inr qCoeffs \<Rightarrow>
              if length pCoeffs = 0 \<or> length qCoeffs = 0
              then Inr \<lparr>coeffs = makeCoeffSequence [Rational 0 1], degree = - 1,
                        variable = None, base = None\<rparr>
              else let resultLen = length pCoeffs + length qCoeffs - 1;
                       result = mul_outer pCoeffs qCoeffs 0 (replicate resultLen (Rational 0 1));
                       trimmed = trimCoeffs result
                   in Inr \<lparr>coeffs = makeCoeffSequence trimmed,
                            degree = int (length trimmed) - 1,
                            variable = None, base = None\<rparr>))"

text \<open>
  \<^verbatim>\<open>PolyRebase\<close>: the loop condition \<^verbatim>\<open>i < coeffs.length\<close> reads the variable
  \<^verbatim>\<open>coeffs\<close>, which the body replaces by the quotient on every iteration.
\<close>

function rebase_loop :: "rat \<Rightarrow> nat \<Rightarrow> rat list \<Rightarrow> rat list \<Rightarrow> rat list" where
  "rebase_loop aRat i cs taylorCoeffs =
     (if i < length cs
      then rebase_loop aRat (i + 1) (quotient (synthDivide cs aRat))
             (taylorCoeffs @ [remainder (synthDivide cs aRat)])
      else taylorCoeffs)"
  by pat_completeness auto
termination
proof (relation "measure (\<lambda>(a, i, cs, t). length cs - i)")
  show "wf (measure (\<lambda>(a, i, cs, t). length cs - i))" by simp
next
  fix aRat :: rat and i :: nat and cs taylorCoeffs :: "rat list"
  assume "i < length cs"
  then have "cs \<noteq> []" by auto
  then have "length (quotient (synthDivide cs aRat)) = length cs - 1"
    by (rule synthDivide_quotient_length)
  with \<open>i < length cs\<close>
  show "((aRat, i + 1, quotient (synthDivide cs aRat),
          taylorCoeffs @ [remainder (synthDivide cs aRat)]),
         (aRat, i, cs, taylorCoeffs)) \<in> measure (\<lambda>(a, i, cs, t). length cs - i)"
    by simp
qed

declare rebase_loop.simps [simp del]

definition PolyRebase :: "js_value \<Rightarrow> rat \<Rightarrow> error + polynomial" where
  "PolyRebase poly a =
     (case extractCoeffs (coeffs_or_self poly) of
        Inl e \<Rightarrow> Inl e
      | Inr cs \<Rightarrow>
          let aRat = toRational a;
              taylorCoeffs = rebase_loop aRat 0 cs []
          in Inr \<lparr>coeffs = makeCoeffSequence taylorCoeffs,
                   degree = int (length taylorCoeffs) - 1,
                   variable = None, base = Some aRat\<rparr>)"

section \<open>Root analysis\<close>

text \<open>
  \<^verbatim>\<open>PolySignChanges\<close>: zero coefficients are filtered out, then the loop compares the
  signs (\<^verbatim>\<open>numerator > 0n\<close>) of neighbours for \<^verbatim>\<open>i = 1 .. length - 1\<close>.
\<close>

function sign_loop :: "rat list \<Rightarrow> nat \<Rightarrow> nat \<Rightarrow> nat" where
  "sign_loop nonZero i changes =
     (if i < length nonZero
      then let prevSign = (numerator (nonZero ! (i - 1)) > 0);
               currSign = (numerator (nonZero ! i) > 0)
           in sign_loop nonZero (i + 1) (if prevSign \<noteq> currSign then changes + 1 else changes)
      else changes)"
  by pat_completeness auto
termination
  by (relation "measure (\<lambda>(nz, i, c). length nz - i)") auto

declare sign_loop.simps [simp del]

definition PolySignChanges :: "js_value \<Rightarrow> error + int" where
  "PolySignChanges poly =
     (case extractCoeffs (coeffs_or_self poly) of
        Inl e \<Rightarrow> Inl e
      | Inr cs \<Rightarrow>
          let nonZero = filter (\<lambda>c. numerator c \<noteq> 0) cs
          in Inr (int (sign_loop nonZero 1 0)))"

text \<open>
  \<^verbatim>\<open>PolyDescartes\<close>: the same count for the coefficients and for the coefficients
  with the odd indices negated; the possible counts are pushed by the loop
  \<^verbatim>\<open>for (k = changes; k >= 0; k -= 2)\<close>.
\<close>

function possible_loop :: "int \<Rightarrow> int list \<Rightarrow> int list" where
  "possible_loop k possible =
     (if k \<ge> 0 then possible_loop (k - 2) (possible @ [k]) else possible)"
  by pat_completeness auto
termination
  by (relation "measure (\<lambda>(k, acc). nat (k + 1))") auto

declare possible_loop.simps [simp del]

record descartes_result =
  positiveChanges :: int
  negativeChanges :: int
  possiblePositive :: "int list"
  possibleNegative :: "int list"

definition PolyDescartes :: "js_value \<Rightarrow> error + descartes_result" where
  "PolyDescartes poly =
     (case extractCoeffs (coeffs_or_self poly) of
        Inl e \<Rightarrow> Inl e
      | Inr cs \<Rightarrow>
          let nonZero = filter (\<lambda>c. numerator c \<noteq> 0) cs;
              posChanges = sign_loop nonZero 1 0;
              negCoeffs = map (\<lambda>(c, i). if i mod 2 = 1 then - c else c)
                            (zip cs [0..<length cs]);
              negNonZero = filter (\<lambda>c. numerator c \<noteq> 0) negCoeffs;
              negChanges = sign_loop negNonZero 1 0;
              possiblePos = possible_loop (int posChanges) [];
              possibleNeg = possible_loop (int negChanges) []
          in Inr \<lparr>positiveChanges = int posChanges, negativeChanges = int negChanges,
                   possiblePositive = possiblePos, possibleNegative = possibleNeg\<rparr>)"

text \<open>
  BigInt division and remainder truncate toward zero. They throw on a zero divisor;
  every use below is guarded by a test that the divisor is not zero.
\<close>

definition bigint_div :: "int \<Rightarrow> int \<Rightarrow> int" where
  "bigint_div a b = sgn a * sgn b * (\<bar>a\<bar> div \<bar>b\<bar>)"

definition bigint_rem :: "int \<Rightarrow> int \<Rightarrow> int" where
  "bigint_rem a b = sgn a * (\<bar>a\<bar> mod \<bar>b\<bar>)"

lemma bigint_rem_less: "b \<noteq> 0 \<Longrightarrow> \<bar>bigint_rem a b\<bar> < \<bar>b\<bar>"
  by (simp add: bigint_rem_def abs_mult abs_sgn_eq)

lemma square_le_imp_le: "(i::int) * i \<le> p \<Longrightarrow> i \<le> p"
proof -
  assume h: "i * i \<le> p"
  show "i \<le> p"
  proof (cases "i \<le> 0")
    case True
    have "0 \<le> i * i" by simp
    with h True show ?thesis by linarith
  next
    case False
    then have "i * 1 \<le> i * i" by (intro mult_left_mono) auto
    with h show ?thesis by simp
  qed
qed

text \<open>
  \<^verbatim>\<open>PolyRatRoots\<close>: the divisors of \<^verbatim>\<open>p = |a0.numerator|\<close> and of
  \<^verbatim>\<open>q = |an.numerator|\<close> are collected by trial division up to the square root; every
  pair gives the candidates \<^verbatim>\<open>p/q\<close> and \<^verbatim>\<open>-p/q\<close>. The set \<^verbatim>\<open>tested\<close> holds the
  \<^verbatim>\<open>toString\<close> keys of the candidates already seen; a Rational in lowest terms has one
  key, so the set is modelled by the list of the candidates themselves.
  \<^verbatim>\<open>roots.sort((a, b) => a.compare(b))\<close> orders the roots by the order of the rationals.
\<close>

function divisors_loop :: "int \<Rightarrow> int \<Rightarrow> int list \<Rightarrow> int list" where
  "divisors_loop p i divs =
     (if i * i \<le> p
      then divisors_loop p (i + 1)
             (if bigint_rem p i = 0
              then (if i * i \<noteq> p then divs @ [i, bigint_div p i] else divs @ [i])
              else divs)
      else divs)"
  by pat_completeness auto
termination
proof (relation "measure (\<lambda>(p, i, divs). nat (p + 1 - i))")
  show "wf (measure (\<lambda>(p, i, divs). nat (p + 1 - i)))" by simp
next
  fix p i :: int and divs :: "int list"
  assume "i * i \<le> p"
  then have "i \<le> p" by (rule square_le_imp_le)
  then show "((p, i + 1,
               if bigint_rem p i = 0
               then if i * i \<noteq> p then divs @ [i, bigint_div p i] else divs @ [i]
               else divs),
              (p, i, divs)) \<in> measure (\<lambda>(p, i, divs). nat (p + 1 - i))"
    by simp
qed

declare divisors_loop.simps [simp del]

definition test_candidate :: "rat list \<Rightarrow> rat \<Rightarrow> rat list \<times> rat list \<Rightarrow> rat list \<times> rat list" where
  "test_candidate cs candidate st =
     (case st of (tested, roots) \<Rightarrow>
        if candidate \<notin> set tested
        then (tested @ [candidate],
              if numerator (hornerEval cs candidate) = 0 then roots @ [candidate] else roots)
        else (tested, roots))"

definition candidate_step :: "rat list \<Rightarrow> int \<Rightarrow> rat list \<times> rat list \<Rightarrow> int \<Rightarrow> rat list \<times> rat list" where
  "candidate_step cs pVal st qVal =
     (let posCandidate = Rational pVal qVal;
          negCandidate = Rational (- pVal) qVal
      in test_candidate cs negCandidate (test_candidate cs posCandidate st))"

definition PolyRatRoots :: "js_value \<Rightarrow> error + rat list" where
  "PolyRatRoots poly =
     (case extractCoeffs (coeffs_or_self poly) of
        Inl e \<Rightarrow> Inl e
      | Inr cs \<Rightarrow>
          if length cs = 0 then Inr []
          else let a0 = cs ! 0;
                   an = cs ! (length cs - 1);
                   p = (if numerator a0 < 0 then - numerator a0 else numerator a0);
                   q = (if numerator an < 0 then - numerator an else numerator an)
               in if p = 0 \<or> q = 0 then Inr []
                  else let pDivs = divisors_loop p 1 [];
                           qDivs = divisors_loop q 1 [];
                           roots = snd (foldl (\<lambda>st pVal. foldl (candidate_step cs pVal) st qDivs)
                                          ([], []) pDivs)
                       in Inr (sort roots))"

section \<open>Rational functions\<close>

definition RatFunc :: "js_value \<Rightarrow> js_value \<Rightarrow> js_value" where
  "RatFunc numer denom = RatFuncObj numer denom"

text \<open>
  \<^verbatim>\<open>RatFuncEval\<close>: throws unless the argument has a \<^verbatim>\<open>numer\<close> and a \<^verbatim>\<open>denom\<close>
  (every object is truthy, only a missing field is not), and then returns a string.
\<close>

fun RatFuncEval :: "js_value \<Rightarrow> rat \<Rightarrow> error + js_value" where
  "RatFuncEval (RatFuncObj numer denom) x =
     (if numer = Undefined \<or> denom = Undefined
      then Inl (Error ''Expected rational function'')
      else Inr (StringV ''RatFuncEval not yet implemented''))"
| "RatFuncEval r x = Inl (Error ''Expected rational function'')"

section \<open>Number theory\<close>

function gcd_loop :: "int \<Rightarrow> int \<Rightarrow> int" where
  "gcd_loop a b = (if b \<noteq> 0 then gcd_loop b (bigint_rem a b) else a)"
  by pat_completeness auto
termination
  by (relation "measure (\<lambda>(a, b). nat \<bar>b\<bar>)") (use bigint_rem_less in auto)

declare gcd_loop.simps [simp del]

definition gcdBigInt :: "int \<Rightarrow> int \<Rightarrow> int" where
  "gcdBigInt a b = gcd_loop (if a < 0 then - a else a) (if b < 0 then - b else b)"

function extGcdBigInt :: "int \<Rightarrow> int \<Rightarrow> int \<times> int \<times> int" where
  "extGcdBigInt a b =
     (if b = 0 then (a, 1, 0)
      else (case extGcdBigInt b (bigint_rem a b) of
              (g, x1, y1) \<Rightarrow> (g, y1, x1 - bigint_div a b * y1)))"
  by pat_completeness auto
termination
  by (relation "measure (\<lambda>(a, b). nat \<bar>b\<bar>)") (use bigint_rem_less in auto)

declare extGcdBigInt.simps [simp del]

text \<open>
  The handlers. \<^verbatim>\<open>Gcd\<close> reads all its arguments from the call scope and folds
  \<^verbatim>\<open>gcdBigInt\<close> over them; \<^verbatim>\<open>toBigInt\<close> is the identity on an Integer.
\<close>

definition Gcd_handler :: "int list \<Rightarrow> error + int" where
  "Gcd_handler allArgs =
     (if length allArgs = 0 then Inl (Error ''Gcd requires at least one argument'')
      else Inr (foldl gcdBigInt (allArgs ! 0) (drop 1 allArgs)))"

definition ExtGcd :: "int \<Rightarrow> int \<Rightarrow> int list" where
  "ExtGcd a b = (case extGcdBigInt a b of (g, x, y) \<Rightarrow> [g, x, y])"

section \<open>Specification-level definitions\<close>

text \<open>
  Naive term-by-term summation, as the specification words it: the sum over the indices
  \<open>i\<close> of \<open>coeffs[i] * x^i\<close>.
\<close>

definition naive_eval :: "rat list \<Rightarrow> rat \<Rightarrow> rat" where
  "naive_eval cs x = sum_list (map (\<lambda>i. cs ! i * x ^ i) [0..<length cs])"

text \<open>
  The number of adjacent sign changes among the nonzero coefficients, as the
  specification words it: drop the zero coefficients and count the neighbours of
  different sign.
\<close>

definition adjacent_sign_changes :: "rat list \<Rightarrow> nat" where
  "adjacent_sign_changes cs =
     (let nz = filter (\<lambda>c. c \<noteq> 0) cs
      in length (filter (\<lambda>(a, b). sgn a \<noteq> sgn b) (zip nz (tl nz))))"

section \<open>Facts about rationals and BigInt arithmetic\<close>

lemma quotient_of_cases:
  obtains n d where "quotient_of r = (n, d)" "0 < d" "r = of_int n / of_int d"
proof -
  obtain n d where q: "quotient_of r = (n, d)" by (cases "quotient_of r")
  then have "0 < d" by (rule quotient_of_denom_pos)
  moreover from q have "r = of_int n / of_int d" by (rule quotient_of_div)
  ultimately show thesis using q that by blast
qed

lemma numerator_eq_0_iff: "numerator r = 0 \<longleftrightarrow> r = 0"
proof -
  obtain n d where q: "quotient_of r = (n, d)" "0 < d" "r = of_int n / of_int d"
    by (rule quotient_of_cases)
  then show ?thesis by (simp add: numerator_def)
qed

lemma numerator_pos_iff: "numerator r > 0 \<longleftrightarrow> r > 0"
proof -
  obtain n d where q: "quotient_of r = (n, d)" "0 < d" "r = of_int n / of_int d"
    by (rule quotient_of_cases)
  then show ?thesis by (simp add: numerator_def zero_less_divide_iff)
qed

lemma numerator_of_int: "numerator (of_int a) = a"
  unfolding numerator_def by simp

lemma Rational_eq: "Rational n d = of_int n / of_int d"
  by (simp add: Rational_def Fract_of_int_quotient)

lemma bigint_div_rem: "bigint_div a b * b + bigint_rem a b = a"
proof -
  define q r where "q = \<bar>a\<bar> div \<bar>b\<bar>" and "r = \<bar>a\<bar> mod \<bar>b\<bar>"
  have 1: "q * \<bar>b\<bar> + r = \<bar>a\<bar>" by (simp add: q_def r_def)
  have 2: "b * sgn b = \<bar>b\<bar>" by (simp add: abs_sgn)
  have 3: "sgn a * \<bar>a\<bar> = a" by (rule sgn_mult_abs)
  have "bigint_div a b * b + bigint_rem a b = sgn a * (q * (b * sgn b) + r)"
    unfolding bigint_div_def bigint_rem_def q_def[symmetric] r_def[symmetric]
    by (simp add: algebra_simps)
  also have "\<dots> = sgn a * (q * \<bar>b\<bar> + r)" by (simp only: 2)
  also have "\<dots> = a" by (simp only: 1 3)
  finally show ?thesis .
qed

lemma map_toRational: "map toRational cs = cs"
  by (induction cs) (simp_all add: toRational_def)

lemma extractCoeffs_PolyObj: "extractCoeffs (coeffs_or_self (PolyObj P)) = Inr (coeffs P)"
  by (simp add: map_toRational)

lemma extractCoeffs_Sequence: "extractCoeffs (coeffs_or_self (Sequence cs)) = Inr cs"
  by (simp add: map_toRational)

section \<open>Horner evaluation and synthetic division\<close>

lemma horner_loop_sum:
  "horner_loop cs x k r = r * x ^ k + (\<Sum>i<k. cs ! i * x ^ i)"
  by (induction k arbitrary: r) (simp_all add: algebra_simps)

lemma hornerEval_sum: "hornerEval cs x = (\<Sum>i<length cs. cs ! i * x ^ i)"
proof (cases cs rule: rev_cases)
  case Nil
  then show ?thesis by (simp add: hornerEval_def)
next
  case (snoc ys y)
  then show ?thesis
    by (simp add: hornerEval_def toRational_def horner_loop_sum algebra_simps)
qed

lemma naive_eval_sum: "naive_eval cs x = (\<Sum>i<length cs. cs ! i * x ^ i)"
  by (simp add: naive_eval_def interv_sum_list_conv_sum_set_nat atLeast0LessThan)

lemma synth_loop_last:
  "length result = i \<Longrightarrow> 0 < i \<Longrightarrow> i \<le> n \<Longrightarrow> length d = n \<Longrightarrow>
   last (synth_loop d c n i result) = horner_loop (rev d) c (n - i) (last result)"
proof (induction d c n i result rule: synth_loop.induct)
  case (1 d c n i result)
  show ?case
  proof (cases "i < n")
    case True
    then obtain k where k: "n - i = Suc k" by (cases "n - i") auto
    then have k': "n - Suc i = k" by arith
    have "k < length d" "length d - Suc k = i" using k 1(5) True by arith+
    then have nth: "rev d ! k = d ! i" by (simp add: rev_nth)
    have lst: "result ! (i - 1) = last result"
      using 1(2,3) by (cases result rule: rev_cases) (auto simp: nth_append)
    have "last (synth_loop d c n i result) =
          last (synth_loop d c n (i + 1) (result @ [result ! (i - 1) * c + d ! i]))"
      using True by (subst synth_loop.simps) simp
    also have "\<dots> = horner_loop (rev d) c (n - (i + 1))
                        (last (result @ [result ! (i - 1) * c + d ! i]))"
      using 1 True by simp
    also have "\<dots> = horner_loop (rev d) c (n - i) (last result)"
      using k k' nth lst by simp
    finally show ?thesis .
  next
    case False
    then show ?thesis using 1 by (subst synth_loop.simps) simp
  qed
qed

text \<open>
  Claim C2. For every coefficient list and every rational \<open>c\<close>, the remainder that
  synthetic division by \<open>x - c\<close> returns is the Horner evaluation of the polynomial
  at \<open>c\<close>.
\<close>

theorem synthDivide_remainder_eq_hornerEval:
  "remainder (synthDivide cs c) = hornerEval cs c"
proof (cases "cs = []")
  case True
  then show ?thesis by (simp add: synthDivide_def hornerEval_def)
next
  case False
  let ?n = "length cs"
  let ?res = "synth_loop (rev cs) (toRational c) ?n 1 [rev cs ! 0]"
  have n: "0 < ?n" using False by simp
  have len: "length ?res = ?n"
    using n by (intro synth_loop_length) (simp_all add: Suc_leI)
  have "remainder (synthDivide cs c) = ?res ! (?n - 1)"
    using False by (simp add: synthDivide_def Let_def)
  also have "\<dots> = last ?res"
    using len n by (metis last_conv_nth length_0_conv less_numeral_extra(3))
  also have "\<dots> = horner_loop cs (toRational c) (?n - 1) (rev cs ! 0)"
    using n synth_loop_last[of "[rev cs ! 0]" 1 ?n "rev cs" "toRational c"]
    by (simp add: Suc_leI)
  also have "rev cs ! 0 = cs ! (?n - 1)" using n by (simp add: rev_nth)
  finally show ?thesis using False by (simp add: hornerEval_def Let_def)
qed

text \<open>
  Claim C6. For every coefficient list and every rational \<open>x\<close>, Horner evaluation
  returns the value of the naive term-by-term sum of \<open>coeffs[i] * x^i\<close>, computed
  exactly in the rationals; \<^verbatim>\<open>PolyEval\<close> returns that value for a polynomial object
  and for a coefficient sequence.
\<close>

theorem hornerEval_eq_naive_eval:
  "hornerEval cs x = naive_eval cs x
   \<and> PolyEval (PolyObj P) x = Inr (naive_eval (coeffs P) x)
   \<and> PolyEval (Sequence cs) x = Inr (naive_eval cs x)"
  by (simp add: hornerEval_sum naive_eval_sum PolyEval_def map_toRational)

section \<open>The coefficient accessor\<close>

text \<open>
  Claim C10. For every polynomial and every index that is negative or beyond the
  highest stored coefficient index, \<^verbatim>\<open>PolyCoeff\<close> does not fail and returns the
  rational zero.
\<close>

theorem PolyCoeff_out_of_range:
  "n < 0 \<or> int (length (coeffs P)) - 1 < n \<Longrightarrow>
   PolyCoeff (PolyObj P) n = Inr 0 \<and> PolyCoeff (Sequence (coeffs P)) n = Inr 0"
  by (auto simp: PolyCoeff_def map_toRational Rational_def rat_number_collapse)

theorem PolyCoeff_out_of_range_witness:
  "((3::int) < 0 \<or> int (length (coeffs \<lparr>coeffs = [1, 2, 3], degree = 2,
        variable = Some ''x'', base = None\<rparr>)) - 1 < 3)
   \<and> PolyCoeff (PolyObj \<lparr>coeffs = [1, 2, 3], degree = 2,
        variable = Some ''x'', base = None\<rparr>) 3 = Inr 0
   \<and> PolyCoeff (PolyObj \<lparr>coeffs = [1, 2, 3], degree = 2,
        variable = Some ''x'', base = None\<rparr>) (- 1) = Inr 0"
  using PolyCoeff_out_of_range [of 3 "\<lparr>coeffs = [1, 2, 3], degree = 2,
          variable = Some ''x'', base = None\<rparr>"]
        PolyCoeff_out_of_range [of "- 1" "\<lparr>coeffs = [1, 2, 3], degree = 2,
          variable = Some ''x'', base = None\<rparr>"]
  by simp

section \<open>Greatest common divisors\<close>

lemma extGcdBigInt_bezout:
  "extGcdBigInt a b = (g, x, y) \<Longrightarrow> a * x + b * y = g"
proof (induction a b arbitrary: g x y rule: extGcdBigInt.induct)
  case (1 a b)
  show ?case
  proof (cases "b = 0")
    case True
    with 1(2) show ?thesis by (simp add: extGcdBigInt.simps)
  next
    case False
    obtain g' x1 y1 where rec: "extGcdBigInt b (bigint_rem a b) = (g', x1, y1)"
      by (cases "extGcdBigInt b (bigint_rem a b)") auto
    from 1(1)[OF False rec] have ih: "b * x1 + bigint_rem a b * y1 = g'" .
    have "extGcdBigInt a b = (g', y1, x1 - bigint_div a b * y1)"
      by (subst extGcdBigInt.simps) (simp add: False rec)
    with 1(2) have g: "g = g'" and x: "x = y1" and y: "y = x1 - bigint_div a b * y1"
      by auto
    have "a * x + b * y =
          (bigint_div a b * b + bigint_rem a b) * y1 + b * (x1 - bigint_div a b * y1)"
      unfolding x y by (simp only: bigint_div_rem)
    also have "\<dots> = b * x1 + bigint_rem a b * y1" by (simp add: algebra_simps)
    finally show ?thesis using ih g by simp
  qed
qed

lemma Gcd_handler_48_18: "Gcd_handler [48, 18] = Inr 6"
  by code_simp

lemma ExtGcd_35_15: "ExtGcd 35 15 = [5, 1, - 2]"
  by code_simp

lemma gcd_bigint_rem: "gcd b (bigint_rem a b) = gcd a b"
proof -
  have "gcd a b = gcd b (bigint_div a b * b + bigint_rem a b)"
    by (simp only: bigint_div_rem gcd.commute)
  also have "\<dots> = gcd b (bigint_rem a b)"
    by (rule gcd_add_mult)
  finally show ?thesis by simp
qed

lemma bigint_rem_nonneg: "0 \<le> a \<Longrightarrow> 0 \<le> bigint_rem a b"
  by (cases "b = 0") (simp_all add: bigint_rem_def sgn_if)

lemma gcd_loop_abs: "\<bar>gcd_loop a b\<bar> = gcd a b"
proof (induction a b rule: gcd_loop.induct)
  case (1 a b)
  show ?case
  proof (cases "b = 0")
    case True
    then show ?thesis by (subst gcd_loop.simps) simp
  next
    case False
    then have "gcd_loop a b = gcd_loop b (bigint_rem a b)"
      by (subst gcd_loop.simps) simp
    with 1[OF False] show ?thesis by (simp add: gcd_bigint_rem)
  qed
qed

lemma gcd_loop_nonneg: "0 \<le> a \<Longrightarrow> 0 \<le> b \<Longrightarrow> 0 \<le> gcd_loop a b"
proof (induction a b rule: gcd_loop.induct)
  case (1 a b)
  show ?case
  proof (cases "b = 0")
    case True
    with 1(2) show ?thesis by (subst gcd_loop.simps) simp
  next
    case False
    then have "gcd_loop a b = gcd_loop b (bigint_rem a b)"
      by (subst gcd_loop.simps) simp
    with 1(1)[OF False 1(3)] 1(2) show ?thesis by (simp add: bigint_rem_nonneg)
  qed
qed

lemma gcdBigInt_eq_gcd: "gcdBigInt a b = gcd a b"
proof -
  have e: "gcdBigInt a b = gcd_loop \<bar>a\<bar> \<bar>b\<bar>"
    by (simp add: gcdBigInt_def abs_if)
  have "0 \<le> gcd_loop \<bar>a\<bar> \<bar>b\<bar>" by (rule gcd_loop_nonneg) simp_all
  then have "gcd_loop \<bar>a\<bar> \<bar>b\<bar> = \<bar>gcd_loop \<bar>a\<bar> \<bar>b\<bar>\<bar>" by simp
  also have "\<dots> = gcd a b" by (simp add: gcd_loop_abs)
  finally show ?thesis using e by simp
qed

lemma Gcd_handler_pair: "Gcd_handler [a, b] = Inr (gcd a b)"
  by (simp add: Gcd_handler_def gcdBigInt_eq_gcd)

lemma foldl_gcdBigInt: "foldl gcdBigInt a bs = gcd a (Gcd (set bs))" if "bs \<noteq> []"
  using that
proof (induction bs arbitrary: a)
  case Nil then show ?case by simp
next
  case (Cons b bs)
  show ?case
  proof (cases "bs = []")
    case True then show ?thesis by (simp add: gcdBigInt_eq_gcd)
  next
    case False
    with Cons.IH[of "gcdBigInt a b"] show ?thesis
      by (simp add: gcdBigInt_eq_gcd gcd.assoc)
  qed
qed

lemma extGcdBigInt_abs:
  "extGcdBigInt a b = (g, x, y) \<Longrightarrow> \<bar>g\<bar> = gcd a b"
proof (induction a b arbitrary: g x y rule: extGcdBigInt.induct)
  case (1 a b)
  show ?case
  proof (cases "b = 0")
    case True
    with 1(2) show ?thesis by (simp add: extGcdBigInt.simps)
  next
    case False
    obtain g' x1 y1 where rec: "extGcdBigInt b (bigint_rem a b) = (g', x1, y1)"
      by (cases "extGcdBigInt b (bigint_rem a b)") auto
    from 1(1)[OF False rec] have ih: "\<bar>g'\<bar> = gcd b (bigint_rem a b)" .
    have "extGcdBigInt a b = (g', y1, x1 - bigint_div a b * y1)"
      by (subst extGcdBigInt.simps) (simp add: False rec)
    with 1(2) have "g = g'" by auto
    with ih show ?thesis by (simp add: gcd_bigint_rem)
  qed
qed

lemma extGcdBigInt_nonneg:
  "0 \<le> a \<Longrightarrow> 0 \<le> b \<Longrightarrow> extGcdBigInt a b = (g, x, y) \<Longrightarrow> 0 \<le> g"
proof (induction a b arbitrary: g x y rule: extGcdBigInt.induct)
  case (1 a b)
  show ?case
  proof (cases "b = 0")
    case True
    with 1(2,4) show ?thesis by (simp add: extGcdBigInt.simps)
  next
    case False
    obtain g' x1 y1 where rec: "extGcdBigInt b (bigint_rem a b) = (g', x1, y1)"
      by (cases "extGcdBigInt b (bigint_rem a b)") auto
    have "0 \<le> bigint_rem a b" using 1(2) by (rule bigint_rem_nonneg)
    from 1(1)[OF False 1(3) this rec] have ih: "0 \<le> g'" .
    have "extGcdBigInt a b = (g', y1, x1 - bigint_div a b * y1)"
      by (subst extGcdBigInt.simps) (simp add: False rec)
    with 1(4) have "g = g'" by auto
    with ih show ?thesis by simp
  qed
qed

text \<open>
  Claim C9. \<^verbatim>\<open>Gcd(48, 18)\<close> returns 6, and \<^verbatim>\<open>Gcd(a, b)\<close> returns the greatest
  common divisor of any two integers. For every pair of integers \<open>a\<close>, \<open>b\<close>,
  \<^verbatim>\<open>ExtGcd(a, b)\<close> returns three integers \<open>g\<close>, \<open>x\<close>, \<open>y\<close> with
  \<open>a * x + b * y = g\<close>, where \<open>g\<close> is the greatest common divisor of \<open>a\<close> and \<open>b\<close>
  up to sign, and the greatest common divisor itself when neither argument is negative.
  \<^verbatim>\<open>ExtGcd(35, 15)\<close> returns 5 with coefficients \<open>x\<close>, \<open>y\<close> such that
  \<open>35 * x + 15 * y = 5\<close>.
\<close>

theorem ExtGcd_bezout:
  "Gcd_handler [48, 18] = Inr 6
   \<and> Gcd_handler [a, b] = Inr (gcd a b)
   \<and> (\<exists>g x y. ExtGcd a b = [g, x, y] \<and> a * x + b * y = g \<and> \<bar>g\<bar> = gcd a b
         \<and> (0 \<le> a \<and> 0 \<le> b \<longrightarrow> g = gcd a b))
   \<and> (\<exists>x y. ExtGcd 35 15 = [5, x, y] \<and> 35 * x + 15 * y = 5)"
proof (intro conjI)
  show "Gcd_handler [48, 18] = Inr 6" by (rule Gcd_handler_48_18)
next
  show "Gcd_handler [a, b] = Inr (gcd a b)" by (rule Gcd_handler_pair)
next
  obtain g x y where e: "extGcdBigInt a b = (g, x, y)"
    by (cases "extGcdBigInt a b") auto
  then have bz: "a * x + b * y = g" by (rule extGcdBigInt_bezout)
  from e have ab: "\<bar>g\<bar> = gcd a b" by (rule extGcdBigInt_abs)
  have "g = gcd a b" if "0 \<le> a \<and> 0 \<le> b"
  proof -
    from that e have "0 \<le> g" using extGcdBigInt_nonneg by blast
    with ab show ?thesis by simp
  qed
  with e bz ab
  show "\<exists>g x y. ExtGcd a b = [g, x, y] \<and> a * x + b * y = g \<and> \<bar>g\<bar> = gcd a b
         \<and> (0 \<le> a \<and> 0 \<le> b \<longrightarrow> g = gcd a b)"
    by (simp add: ExtGcd_def)
next
  show "\<exists>x y. ExtGcd 35 15 = [5, x, y] \<and> 35 * x + 15 * y = 5"
    by (simp add: ExtGcd_35_15)
qed

theorem ExtGcd_bezout_witness:
  "(0::int) \<le> 35 \<and> (0::int) \<le> 15
   \<and> (\<exists>g x y. ExtGcd 35 15 = [g, x, y] \<and> 35 * x + 15 * y = g \<and> g = gcd 35 15)"
  using ExtGcd_bezout [of 35 15] by auto

section \<open>Descartes' rule of signs\<close>

lemma sign_loop_count:
  "0 < i \<Longrightarrow> sign_loop nz i c =
     c + length (filter (\<lambda>(a, b). (numerator a > 0) \<noteq> (numerator b > 0))
                  (zip (drop (i - 1) nz) (drop i nz)))"
proof (induction nz i c rule: sign_loop.induct)
  case (1 nz i c)
  show ?case
  proof (cases "i < length nz")
    case True
    have d1: "drop (i - 1) nz = nz ! (i - 1) # drop i nz"
      using True 1(2) Cons_nth_drop_Suc[of "i - 1" nz] by simp
    have d2: "drop i nz = nz ! i # drop (i + 1) nz"
      using True Cons_nth_drop_Suc[of i nz] by simp
    have z: "zip (drop (i - 1) nz) (drop i nz) =
             (nz ! (i - 1), nz ! i) # zip (drop i nz) (drop (i + 1) nz)"
      by (subst d1, subst (2) d2) simp
    define c' where "c' = (if (numerator (nz ! (i - 1)) > 0) \<noteq> (numerator (nz ! i) > 0)
                           then c + 1 else c)"
    have step: "sign_loop nz i c = sign_loop nz (i + 1) c'"
      by (subst sign_loop.simps) (simp add: True Let_def c'_def)
    have ih: "sign_loop nz (i + 1) c' =
              c' + length (filter (\<lambda>(a, b). (numerator a > 0) \<noteq> (numerator b > 0))
                            (zip (drop i nz) (drop (i + 1) nz)))"
      using 1(1)[OF True refl refl] by (simp add: c'_def)
    show ?thesis unfolding step ih z by (simp add: c'_def)
  next
    case False
    then show ?thesis by (subst sign_loop.simps) simp
  qed
qed

lemma sign_loop_spec:
  "sign_loop (filter (\<lambda>c. numerator c \<noteq> 0) cs) 1 0 = adjacent_sign_changes cs"
proof -
  let ?nz = "filter (\<lambda>c. c \<noteq> 0) cs"
  have nz: "filter (\<lambda>c. numerator c \<noteq> 0) cs = ?nz"
    by (simp add: numerator_eq_0_iff)
  have "filter (\<lambda>(a, b). (numerator a > 0) \<noteq> (numerator b > 0)) (zip ?nz (tl ?nz)) =
        filter (\<lambda>(a, b). sgn a \<noteq> sgn b) (zip ?nz (tl ?nz))"
  proof (rule filter_cong[OF refl])
    fix ab assume mem: "ab \<in> set (zip ?nz (tl ?nz))"
    obtain a b where ab: "ab = (a, b)" by (cases ab)
    with mem have a: "a \<in> set ?nz" and b: "b \<in> set (tl ?nz)"
      by (blast elim: in_set_zipE)+
    from b have "b \<in> set ?nz" by (metis list.set_sel(2) tl_Nil)
    with a have "a \<noteq> 0" "b \<noteq> 0" by auto
    then show "(case ab of (a, b) \<Rightarrow> (numerator a > 0) \<noteq> (numerator b > 0)) =
               (case ab of (a, b) \<Rightarrow> sgn a \<noteq> sgn b)"
      unfolding ab by (auto simp: numerator_pos_iff sgn_if)
  qed
  then show ?thesis
    unfolding nz adjacent_sign_changes_def Let_def
    by (simp add: sign_loop_count drop_Suc)
qed

lemma possible_loop_eq:
  "- 2 \<le> k \<Longrightarrow> possible_loop k acc = acc @ map (\<lambda>j. k - 2 * int j) [0..<nat ((k + 2) div 2)]"
proof (induction k acc rule: possible_loop.induct)
  case (1 k acc)
  show ?case
  proof (cases "k \<ge> 0")
    case True
    then have n: "nat ((k + 2) div 2) = Suc (nat (k div 2))" by (simp add: nat_add_distrib) 
    have k2: "k - 2 + 2 = k" by simp
    have "possible_loop k acc = possible_loop (k - 2) (acc @ [k])"
      using True by (subst possible_loop.simps) simp
    also have "\<dots> = (acc @ [k]) @ map (\<lambda>j. k - 2 - 2 * int j) [0..<nat (k div 2)]"
      using 1(1)[OF True] True by (simp add: k2)
    also have "map (\<lambda>j. k - 2 - 2 * int j) [0..<nat (k div 2)] =
               map (\<lambda>j. k - 2 * int j) (map Suc [0..<nat (k div 2)])"
      by (simp add: algebra_simps)
    also have "(acc @ [k]) @ \<dots> = acc @ map (\<lambda>j. k - 2 * int j) [0..<Suc (nat (k div 2))]"
      by (simp only: map_Suc_upt upt_conv_Cons[of 0 "Suc (nat (k div 2))"]) simp
    finally show ?thesis by (simp only: n)
  next
    case False
    with 1(2) have "nat ((k + 2) div 2) = 0" by auto
    with False show ?thesis by (subst possible_loop.simps) simp
  qed
qed


lemma possible_loop_nat:
  "possible_loop (int v) [] = map (\<lambda>j. int v - 2 * int j) [0..<v div 2 + 1]"
proof -
  have "nat ((int v + 2) div 2) = v div 2 + 1" by linarith
  then show ?thesis by (simp add: possible_loop_eq)
qed

lemma PolyDescartes_PolyObj:
  "PolyDescartes (PolyObj P) = Inr r \<Longrightarrow>
   positiveChanges r = int (adjacent_sign_changes (coeffs P)) \<and>
   possiblePositive r = possible_loop (int (adjacent_sign_changes (coeffs P))) []"
  by (auto simp: PolyDescartes_def map_toRational Let_def sign_loop_spec[unfolded One_nat_def])

lemma PolyDescartes_total: "\<exists>r. PolyDescartes (PolyObj P) = Inr r"
  by (simp add: PolyDescartes_def map_toRational Let_def)

lemma Descartes_example:
  "Poly (Sequence [- 4, 2, - 1, 3]) None =
     Inr \<lparr>coeffs = [- 4, 2, - 1, 3], degree = 3, variable = Some ''x'', base = None\<rparr>
   \<and> PolyDescartes (PolyObj \<lparr>coeffs = [- 4, 2, - 1, 3], degree = 3,
                              variable = Some ''x'', base = None\<rparr>) =
     Inr \<lparr>positiveChanges = 3, negativeChanges = 0,
          possiblePositive = [3, 1], possibleNegative = [0]\<rparr>"
  by code_simp

text \<open>
  Claim C7. For every polynomial the Descartes analysis reports, as the possible numbers
  of positive roots, exactly the descending sequence \<open>v, v - 2, v - 4, \<dots>\<close> that ends
  at 0 or 1, where \<open>v\<close>, the reported number of sign changes, is the number of adjacent
  sign changes among the nonzero coefficients; for \<^verbatim>\<open>Poly({-4, 2, -1, 3})\<close> it reports
  3 sign changes and the possible counts 3 and 1.
\<close>

theorem PolyDescartes_possible_positive:
  "(\<exists>r. PolyDescartes (PolyObj P) = Inr r
        \<and> (let v = adjacent_sign_changes (coeffs P)
           in positiveChanges r = int v
              \<and> possiblePositive r = map (\<lambda>j. int v - 2 * int j) [0..<v div 2 + 1]
              \<and> last (possiblePositive r) = int (v mod 2)))
   \<and> (\<exists>P0 r0. Poly (Sequence [- 4, 2, - 1, 3]) None = Inr P0
        \<and> PolyDescartes (PolyObj P0) = Inr r0
        \<and> positiveChanges r0 = 3 \<and> possiblePositive r0 = [3, 1])"
proof (intro conjI)
  obtain r where r: "PolyDescartes (PolyObj P) = Inr r"
    using PolyDescartes_total by blast
  define v where "v = adjacent_sign_changes (coeffs P)"
  from PolyDescartes_PolyObj[OF r]
  have pc: "positiveChanges r = int v"
    and pp: "possiblePositive r = map (\<lambda>j. int v - 2 * int j) [0..<v div 2 + 1]"
    by (simp_all add: v_def possible_loop_nat)
  have "last (possiblePositive r) = int v - 2 * int (v div 2)"
    unfolding pp by (simp add: last_map del: upt_Suc)
  also have "\<dots> = int (v mod 2)" by (simp add: zmod_int) presburger
  finally have "last (possiblePositive r) = int (v mod 2)" .
  with r pc pp
  show "\<exists>r. PolyDescartes (PolyObj P) = Inr r
        \<and> (let v = adjacent_sign_changes (coeffs P)
           in positiveChanges r = int v
              \<and> possiblePositive r = map (\<lambda>j. int v - 2 * int j) [0..<v div 2 + 1]
              \<and> last (possiblePositive r) = int (v mod 2))"
    unfolding v_def Let_def by blast
next
  show "\<exists>P0 r0. Poly (Sequence [- 4, 2, - 1, 3]) None = Inr P0
        \<and> PolyDescartes (PolyObj P0) = Inr r0
        \<and> positiveChanges r0 = 3 \<and> possiblePositive r0 = [3, 1]"
    using Descartes_example by fastforce
qed

section \<open>Taylor rebasing\<close>

text \<open>
  The loop of \<^verbatim>\<open>PolyRebase\<close> compares its counter with the length of the shrinking
  quotient, so it runs for half of the coefficients, rounded up.
\<close>

lemma rebase_loop_length:
  "length (rebase_loop a i cs t) = length t + (length cs - i + 1) div 2"
proof (induction a i cs t rule: rebase_loop.induct)
  case (1 a i cs t)
  show ?case
  proof (cases "i < length cs")
    case True
    then have "cs \<noteq> []" by auto
    then have q: "length (quotient (synthDivide cs a)) = length cs - 1"
      by (rule synthDivide_quotient_length)
    have "length (rebase_loop a i cs t) =
          length (rebase_loop a (i + 1) (quotient (synthDivide cs a))
                    (t @ [remainder (synthDivide cs a)]))"
      using True by (subst rebase_loop.simps) simp
    also have "\<dots> = length t + 1 + (length cs - 1 - (i + 1) + 1) div 2"
      using 1[OF True] q by simp
    also have "\<dots> = length t + (length cs - i + 1) div 2"
      using True by presburger
    finally show ?thesis .
  next
    case False
    then show ?thesis by (subst rebase_loop.simps) simp
  qed
qed

text \<open>
  Claim C1. \<^verbatim>\<open>PolyRebase\<close> is to run one synthetic division per coefficient and to
  return Taylor coefficients whose Horner evaluation at a shift \<open>s\<close> equals the
  polynomial at \<open>a + s\<close>. For \<open>x\<^sup>2\<close> rebased at 1 the code returns the two
  coefficients 1, 2 instead of 1, 2, 1, and at the shift 1 they evaluate to 3 while the
  polynomial at 2 is 4.
\<close>

theorem PolyRebase_stops_early:
  "Poly (Sequence [0, 0, 1]) None =
     Inr \<lparr>coeffs = [0, 0, 1], degree = 2, variable = Some ''x'', base = None\<rparr>
   \<and> PolyRebase (PolyObj \<lparr>coeffs = [0, 0, 1], degree = 2, variable = Some ''x'',
                           base = None\<rparr>) 1 =
     Inr \<lparr>coeffs = [1, 2], degree = 1, variable = None, base = Some 1\<rparr>
   \<and> hornerEval [1, 2] 1 = 3
   \<and> hornerEval [0, 0, 1] (1 + 1) = 4"
  by code_simp

section \<open>The constructor and the zero polynomial\<close>

text \<open>
  What \<^verbatim>\<open>trimCoeffs\<close> does establish: a nonempty array is trimmed to a nonempty one
  that is the single zero or ends in a nonzero coefficient. An all-zero array is trimmed
  to the single zero, and the constructor gives it the degree 0.
\<close>

lemma trim_loop_bounds:
  "0 \<le> e \<Longrightarrow> 0 \<le> trim_loop cs e \<and> trim_loop cs e \<le> e
     \<and> (trim_loop cs e = 0 \<or> cs ! nat (trim_loop cs e) \<noteq> 0)"
proof (induction cs e rule: trim_loop.induct)
  case (1 cs e)
  show ?case
  proof (cases "e > 0 \<and> numerator (cs ! nat e) = 0")
    case True
    then have "trim_loop cs e = trim_loop cs (e - 1)" by (subst trim_loop.simps) simp
    with 1(1)[OF True] True show ?thesis by simp
  next
    case False
    then have "trim_loop cs e = e" by (subst trim_loop.simps) auto
    with False 1(2) show ?thesis by (auto simp: numerator_eq_0_iff)
  qed
qed

lemma trimCoeffs_canonical:
  "cs \<noteq> [] \<Longrightarrow>
   trimCoeffs cs \<noteq> [] \<and> (trimCoeffs cs = [0] \<or> last (trimCoeffs cs) \<noteq> 0)"
proof -
  assume ne: "cs \<noteq> []"
  define e where "e = trim_loop cs (int (length cs) - 1)"
  have b: "0 \<le> e" "e \<le> int (length cs) - 1" "e = 0 \<or> cs ! nat e \<noteq> 0"
    using trim_loop_bounds[of "int (length cs) - 1" cs] ne
    by (simp_all add: e_def)
  have t: "trimCoeffs cs = take (Suc (nat e)) cs"
    using b(1) by (simp add: trimCoeffs_def e_def[symmetric] nat_add_distrib)
  have lt: "nat e < length cs" using b(1,2) by linarith
  then have t': "trimCoeffs cs = take (nat e) cs @ [cs ! nat e]"
    unfolding t by (rule take_Suc_conv_app_nth)
  show ?thesis
  proof (cases "cs ! nat e = 0")
    case True
    with b(3) have "e = 0" by simp
    with t' True show ?thesis by simp
  next
    case False
    with t' show ?thesis by simp
  qed
qed

lemma trim_loop_all_zero:
  "0 \<le> e \<Longrightarrow> e < int (length cs) \<Longrightarrow> \<forall>c \<in> set cs. c = 0 \<Longrightarrow> trim_loop cs e = 0"
proof (induction cs e rule: trim_loop.induct)
  case (1 cs e)
  show ?case
  proof (cases "e > 0")
    case True
    with 1(3) have "nat e < length cs" by linarith
    with 1(4) have "cs ! nat e = 0" by simp
    with True have c: "e > 0 \<and> numerator (cs ! nat e) = 0" by (simp add: numerator_eq_0_iff)
    then have "trim_loop cs e = trim_loop cs (e - 1)" by (subst trim_loop.simps) simp
    with 1(1)[OF c] 1(3,4) True show ?thesis by simp
  next
    case False
    with 1(2) show ?thesis by (subst trim_loop.simps) simp
  qed
qed

lemma Poly_all_zero:
  assumes "cs \<noteq> []" "\<forall>c \<in> set cs. c = 0"
  shows "Poly (Sequence cs) None =
           Inr \<lparr>coeffs = [0], degree = 0, variable = Some ''x'', base = None\<rparr>"
proof -
  have "trim_loop cs (int (length cs) - 1) = 0"
    using assms by (intro trim_loop_all_zero) simp_all
  then have "trimCoeffs cs = take 1 cs" by (simp add: trimCoeffs_def)
  also have "\<dots> = [0]" using assms by (cases cs) simp_all
  finally show ?thesis
    by (simp add: Poly_def map_toRational makeCoeffSequence_def)
qed

text \<open>
  Claim C3. The constructor is to represent the additive identity with degree -1 and a
  single zero coefficient. \<^verbatim>\<open>Poly({0})\<close> and \<^verbatim>\<open>Poly({0, 0, 0})\<close> have the single
  zero coefficient and the degree 0; the empty sequence gives the degree -1 with no
  coefficient; the empty case of \<^verbatim>\<open>PolyMul\<close> gives the degree -1 with one zero
  coefficient.
\<close>

theorem Poly_zero_degree:
  "Poly (Sequence [0]) None =
     Inr \<lparr>coeffs = [0], degree = 0, variable = Some ''x'', base = None\<rparr>
   \<and> Poly (Sequence [0, 0, 0]) None =
     Inr \<lparr>coeffs = [0], degree = 0, variable = Some ''x'', base = None\<rparr>
   \<and> Poly (Sequence []) None =
     Inr \<lparr>coeffs = [], degree = - 1, variable = Some ''x'', base = None\<rparr>
   \<and> PolyMul (Sequence []) (Sequence [1, 2]) =
     Inr \<lparr>coeffs = [0], degree = - 1, variable = None, base = None\<rparr>"
  by code_simp

section \<open>Rational roots with a zero constant term\<close>

text \<open>
  A zero constant coefficient makes \<^verbatim>\<open>p\<close> zero, and the handler returns the empty
  sequence whatever the other coefficients are.
\<close>

lemma PolyRatRoots_zero_constant:
  "coeffs P \<noteq> [] \<Longrightarrow> coeffs P ! 0 = 0 \<Longrightarrow> PolyRatRoots (PolyObj P) = Inr []"
  by (simp add: PolyRatRoots_def map_toRational Let_def numerator_eq_0_iff)

text \<open>
  Claim C4. With a zero constant coefficient the operation is to report the root 0 and
  the rational roots of the remaining factor. For \<open>x\<^sup>2 - x\<close>, whose roots are 0 and 1,
  the code returns the empty sequence.
\<close>

theorem PolyRatRoots_zero_constant_term:
  "Poly (Sequence [0, - 1, 1]) None =
     Inr \<lparr>coeffs = [0, - 1, 1], degree = 2, variable = Some ''x'', base = None\<rparr>
   \<and> PolyRatRoots (PolyObj \<lparr>coeffs = [0, - 1, 1], degree = 2, variable = Some ''x'',
                             base = None\<rparr>) = Inr []
   \<and> hornerEval [0, - 1, 1] 0 = 0
   \<and> hornerEval [0, - 1, 1] 1 = 0"
  by code_simp

section \<open>Evaluation of a rational function\<close>

lemma RatFuncEval_never_rational:
  "RatFuncEval r x = Inr (StringV ''RatFuncEval not yet implemented'') \<or>
   RatFuncEval r x = Inl (Error ''Expected rational function'')"
  by (cases r) auto

text \<open>
  Claim C5. \<^verbatim>\<open>RatFuncEval\<close> is to return the quotient of the two evaluations and to
  fail at a pole. For \<open>(1 + 2x) / (1 + x\<^sup>2)\<close> at 1, where the quotient is 3/2, and for
  \<open>1 / (x - 1)\<close> at its pole 1, the code returns the same string.
\<close>

theorem RatFuncEval_placeholder:
  "RatFuncEval (RatFunc (PolyObj \<lparr>coeffs = [1, 2], degree = 1, variable = Some ''x'', base = None\<rparr>)
                        (PolyObj \<lparr>coeffs = [1, 0, 1], degree = 2, variable = Some ''x'', base = None\<rparr>)) 1
     = Inr (StringV ''RatFuncEval not yet implemented'')
   \<and> hornerEval [1, 2] 1 / hornerEval [1, 0, 1] 1 = 3 / 2
   \<and> RatFuncEval (RatFunc (PolyObj \<lparr>coeffs = [1], degree = 0, variable = Some ''x'', base = None\<rparr>)
                        (PolyObj \<lparr>coeffs = [- 1, 1], degree = 1, variable = Some ''x'', base = None\<rparr>)) 1
     = Inr (StringV ''RatFuncEval not yet implemented'')
   \<and> hornerEval [- 1, 1] 1 = 0"
  by code_simp

section \<open>The rational root search\<close>

lemma bigint_rem_pos: "0 < p \<Longrightarrow> 0 < i \<Longrightarrow> bigint_rem p i = p mod i"
  by (simp add: bigint_rem_def)

lemma bigint_div_pos: "0 < p \<Longrightarrow> 0 < i \<Longrightarrow> bigint_div p i = p div i"
  by (simp add: bigint_div_def)

lemma divisors_loop_set:
  "0 < p \<Longrightarrow> 0 < i \<Longrightarrow>
   set (divisors_loop p i divs) =
     set divs \<union> {d. \<exists>k. i \<le> k \<and> k * k \<le> p \<and> k dvd p \<and> (d = k \<or> d = p div k)}"
proof (induction p i divs rule: divisors_loop.induct)
  case (1 p i divs)
  let ?phi = "\<lambda>k d. k * k \<le> p \<and> k dvd p \<and> (d = k \<or> d = p div k)"
  show ?case
  proof (cases "i * i \<le> p")
    case True
    define divs' where "divs' = (if bigint_rem p i = 0
              then (if i * i \<noteq> p then divs @ [i, bigint_div p i] else divs @ [i])
              else divs)"
    have sq: "p div i = i" if "i * i = p"
    proof -
      have "i * i div i = i" using 1(3) by simp
      with that show ?thesis by simp
    qed
    have s': "set divs' = set divs \<union> {d. ?phi i d}"
      using True 1(2,3) sq
      by (auto simp: divs'_def bigint_rem_pos bigint_div_pos mod_eq_0_iff_dvd)
    have "divisors_loop p i divs = divisors_loop p (i + 1) divs'"
      using True by (subst divisors_loop.simps) (simp add: divs'_def)
    moreover have "set (divisors_loop p (i + 1) divs') =
                   set divs' \<union> {d. \<exists>k. i + 1 \<le> k \<and> ?phi k d}"
      using 1(1)[OF True] 1(2,3) unfolding divs'_def by simp
    moreover have "{d. \<exists>k. i \<le> k \<and> ?phi k d} = {d. ?phi i d} \<union> {d. \<exists>k. i + 1 \<le> k \<and> ?phi k d}"
    proof (rule set_eqI, rule iffI)
      fix d assume "d \<in> {d. \<exists>k. i \<le> k \<and> ?phi k d}"
      then obtain k where k: "i \<le> k" "?phi k d" by blast
      show "d \<in> {d. ?phi i d} \<union> {d. \<exists>k. i + 1 \<le> k \<and> ?phi k d}"
      proof (cases "k = i")
        case True
        with k show ?thesis by blast
      next
        case False
        with k(1) have "i + 1 \<le> k" by simp
        with k(2) show ?thesis by blast
      qed
    next
      fix d assume "d \<in> {d. ?phi i d} \<union> {d. \<exists>k. i + 1 \<le> k \<and> ?phi k d}"
      then consider "?phi i d" | k where "i + 1 \<le> k" "?phi k d" by blast
      then show "d \<in> {d. \<exists>k. i \<le> k \<and> ?phi k d}"
      proof cases
        case 1
        then show ?thesis by (intro CollectI exI[of _ i]) simp
      next
        case 2
        then have "i \<le> k" by simp
        with 2 show ?thesis by blast
      qed
    qed
    ultimately show ?thesis using s' by auto
  next
    case False
    have "\<And>k. i \<le> k \<Longrightarrow> \<not> k * k \<le> p"
    proof
      fix k assume k: "i \<le> k" "k * k \<le> p"
      with 1(3) have "i * i \<le> k * k" by (intro mult_mono) auto
      with k False show False by simp
    qed
    then have e: "{d. \<exists>k. i \<le> k \<and> ?phi k d} = {}" by blast
    have "divisors_loop p i divs = divs"
      using False by (subst divisors_loop.simps) simp
    then show ?thesis by (simp only: e Un_empty_right)
  qed
qed

lemma divisors_loop_divisors:
  assumes "0 < p"
  shows "set (divisors_loop p 1 []) = {d. 0 < d \<and> d dvd p}"
proof -
  have "{d. \<exists>k. 1 \<le> k \<and> k * k \<le> p \<and> k dvd p \<and> (d = k \<or> d = p div k)} =
        {d. 0 < d \<and> d dvd p}" (is "?L = ?R")
  proof (rule set_eqI, rule iffI)
    fix d assume "d \<in> ?L"
    then obtain k where k: "1 \<le> k" "k dvd p" "d = k \<or> d = p div k" by blast
    from k(2) obtain e where e: "p = k * e" by (rule dvdE)
    with assms k(1) have "0 < e" by (simp add: zero_less_mult_iff)
    have "p div k = e" using e k(1) by simp
    with k e \<open>0 < e\<close> show "d \<in> ?R" by auto
  next
    fix d assume "d \<in> ?R"
    then have d: "0 < d" "d dvd p" by auto
    then obtain e where e: "p = d * e" by (auto elim: dvdE)
    with assms d(1) have epos: "0 < e" by (simp add: zero_less_mult_iff)
    have pe: "p div e = d" "p div d = e" using e d(1) epos by simp_all
    show "d \<in> ?L"
    proof (cases "d * d \<le> p")
      case True
      with d show ?thesis by (intro CollectI exI[of _ d]) auto
    next
      case False
      then have "d * e < d * d" using e by simp
      then have "e < d" using d(1) by (simp add: mult_less_cancel_left_pos)
      then have "e * e \<le> e * d" using epos by (intro mult_left_mono) auto
      then have "e * e \<le> p" using e by (simp add: mult.commute)
      moreover have "e dvd p" using e by simp
      ultimately show ?thesis using epos pe by (intro CollectI exI[of _ e]) auto
    qed
  qed
  with divisors_loop_set[OF assms, of 1 "[]"] show ?thesis by simp
qed


text \<open>
  The invariant of the candidate loops: no candidate is tested twice, and the roots
  collected so far are the tested candidates at which the polynomial vanishes, in the
  order of testing.
\<close>

definition roots_inv :: "rat list \<Rightarrow> rat list \<times> rat list \<Rightarrow> bool" where
  "roots_inv cs st \<longleftrightarrow>
     distinct (fst st) \<and> snd st = filter (\<lambda>r. hornerEval cs r = 0) (fst st)"

lemma test_candidate_inv: "roots_inv cs st \<Longrightarrow> roots_inv cs (test_candidate cs c st)"
  by (cases st) (auto simp: roots_inv_def test_candidate_def numerator_eq_0_iff)

lemma test_candidate_tested: "set (fst (test_candidate cs c st)) = insert c (set (fst st))"
  by (cases st) (auto simp: test_candidate_def)

lemma candidate_step_inv: "roots_inv cs st \<Longrightarrow> roots_inv cs (candidate_step cs pVal st qVal)"
  by (simp add: candidate_step_def Let_def test_candidate_inv)

lemma candidate_step_tested:
  "set (fst (candidate_step cs pVal st qVal)) =
     {Rational pVal qVal, Rational (- pVal) qVal} \<union> set (fst st)"
  by (auto simp: candidate_step_def Let_def test_candidate_tested)

lemma inner_loop_inv:
  "roots_inv cs st \<Longrightarrow> roots_inv cs (foldl (candidate_step cs pVal) st qDivs)"
  by (induction qDivs arbitrary: st) (simp_all add: candidate_step_inv)

lemma inner_loop_tested:
  "set (fst (foldl (candidate_step cs pVal) st qDivs)) =
     set (fst st) \<union> (\<Union>qVal \<in> set qDivs. {Rational pVal qVal, Rational (- pVal) qVal})"
  by (induction qDivs arbitrary: st) (auto simp: candidate_step_tested)

lemma outer_loop_inv:
  "roots_inv cs st \<Longrightarrow>
   roots_inv cs (foldl (\<lambda>st pVal. foldl (candidate_step cs pVal) st qDivs) st pDivs)"
  by (induction pDivs arbitrary: st) (simp_all add: inner_loop_inv)

lemma outer_loop_tested:
  "set (fst (foldl (\<lambda>st pVal. foldl (candidate_step cs pVal) st qDivs) st pDivs)) =
     set (fst st) \<union> (\<Union>pVal \<in> set pDivs. \<Union>qVal \<in> set qDivs.
                        {Rational pVal qVal, Rational (- pVal) qVal})"
  by (induction pDivs arbitrary: st) (auto simp: inner_loop_tested)

lemma candidate_roots:
  fixes cs pDivs qDivs
  defines "st \<equiv> foldl (\<lambda>st pVal. foldl (candidate_step cs pVal) st qDivs) ([], []) pDivs"
  shows "distinct (snd st)"
    and "set (snd st) = {r. (\<exists>pVal \<in> set pDivs. \<exists>qVal \<in> set qDivs.
                               r = Rational pVal qVal \<or> r = Rational (- pVal) qVal)
                            \<and> hornerEval cs r = 0}"
proof -
  have inv: "roots_inv cs st"
    unfolding st_def by (rule outer_loop_inv) (simp add: roots_inv_def)
  have tested: "set (fst st) = (\<Union>pVal \<in> set pDivs. \<Union>qVal \<in> set qDivs.
                        {Rational pVal qVal, Rational (- pVal) qVal})"
    unfolding st_def by (simp add: outer_loop_tested)
  from inv show "distinct (snd st)" by (simp add: roots_inv_def)
  from inv have "set (snd st) = {r \<in> set (fst st). hornerEval cs r = 0}"
    by (simp add: roots_inv_def)
  then show "set (snd st) = {r. (\<exists>pVal \<in> set pDivs. \<exists>qVal \<in> set qDivs.
                               r = Rational pVal qVal \<or> r = Rational (- pVal) qVal)
                            \<and> hornerEval cs r = 0}"
    unfolding tested by auto
qed

lemma PolyRatRoots_example:
  "Poly (Sequence [6, - 5, 1]) None =
     Inr \<lparr>coeffs = [6, - 5, 1], degree = 2, variable = Some ''x'', base = None\<rparr>
   \<and> PolyRatRoots (PolyObj \<lparr>coeffs = [6, - 5, 1], degree = 2, variable = Some ''x'',
                             base = None\<rparr>) = Inr [2, 3]"
  by code_simp

lemma PolyRatRoots_general:
  assumes ne: "coeffs P \<noteq> []"
    and a0: "coeffs P ! 0 = of_int a0"
    and an: "coeffs P ! (length (coeffs P) - 1) = of_int an"
    and nz: "a0 \<noteq> 0" "an \<noteq> 0"
  shows "\<exists>roots. PolyRatRoots (PolyObj P) = Inr roots \<and> sorted roots \<and> distinct roots \<and>
           set roots = {r. (\<exists>p q. 0 < p \<and> p dvd \<bar>a0\<bar> \<and> 0 < q \<and> q dvd \<bar>an\<bar> \<and>
                                 (r = of_int p / of_int q \<or> r = - (of_int p / of_int q)))
                            \<and> hornerEval (coeffs P) r = 0}"
proof -
  let ?cs = "coeffs P"
  define st where "st = foldl (\<lambda>st pVal. foldl (candidate_step ?cs pVal) st
                                  (divisors_loop \<bar>an\<bar> 1 [])) ([], []) (divisors_loop \<bar>a0\<bar> 1 [])"
  have abs_if': "\<And>x::int. (if x < 0 then - x else x) = \<bar>x\<bar>" by simp
  have n0: "numerator (?cs ! 0) = a0" by (simp add: a0 numerator_of_int)
  have nn: "numerator (?cs ! (length ?cs - Suc 0)) = an"
    using an by (simp add: numerator_of_int)
  have res: "PolyRatRoots (PolyObj P) = Inr (sort (snd st))"
    unfolding PolyRatRoots_def extractCoeffs_PolyObj st_def
    using ne nz by (simp add: Let_def n0 nn abs_if')
  have pd: "set (divisors_loop \<bar>a0\<bar> 1 []) = {d. 0 < d \<and> d dvd \<bar>a0\<bar>}"
    using nz by (intro divisors_loop_divisors) simp
  have qd: "set (divisors_loop \<bar>an\<bar> 1 []) = {d. 0 < d \<and> d dvd \<bar>an\<bar>}"
    using nz by (intro divisors_loop_divisors) simp
  have d: "distinct (snd st)" unfolding st_def by (rule candidate_roots(1))
  have "set (snd st) = {r. (\<exists>pVal \<in> {d. 0 < d \<and> d dvd \<bar>a0\<bar>}. \<exists>qVal \<in> {d. 0 < d \<and> d dvd \<bar>an\<bar>}.
                               r = Rational pVal qVal \<or> r = Rational (- pVal) qVal)
                            \<and> hornerEval ?cs r = 0}"
    unfolding st_def candidate_roots(2) pd qd ..
  also have "\<dots> = {r. (\<exists>p q. 0 < p \<and> p dvd \<bar>a0\<bar> \<and> 0 < q \<and> q dvd \<bar>an\<bar> \<and>
                                 (r = of_int p / of_int q \<or> r = - (of_int p / of_int q)))
                            \<and> hornerEval ?cs r = 0}"
    by (auto simp: Rational_eq)
  finally have s: "set (sort (snd st)) = \<dots>" by simp
  from d have "distinct (sort (snd st))" by simp
  with res s show ?thesis by (intro exI[of _ "sort (snd st)"]) simp
qed


text \<open>
  Claim C8. For every polynomial whose constant and leading coefficients are nonzero
  integers \<open>a0\<close> and \<open>an\<close>, \<^verbatim>\<open>PolyRatRoots\<close> returns a list that is sorted
  ascending, has no duplicates, and holds exactly the candidates \<open>p/q\<close> and \<open>-p/q\<close>,
  with \<open>p\<close> a positive divisor of \<open>|a0|\<close> and \<open>q\<close> a positive divisor of \<open>|an|\<close>,
  at which the polynomial evaluates to zero; for \<^verbatim>\<open>Poly({6, -5, 1})\<close> the result is
  2, 3.
\<close>

theorem PolyRatRoots_rational_root_theorem:
  "(coeffs P \<noteq> [] \<and> coeffs P ! 0 = of_int a0
      \<and> coeffs P ! (length (coeffs P) - 1) = of_int an \<and> a0 \<noteq> 0 \<and> an \<noteq> 0 \<longrightarrow>
    (\<exists>roots. PolyRatRoots (PolyObj P) = Inr roots \<and> sorted roots \<and> distinct roots \<and>
       set roots = {r. (\<exists>p q. 0 < p \<and> p dvd \<bar>a0\<bar> \<and> 0 < q \<and> q dvd \<bar>an\<bar> \<and>
                              (r = of_int p / of_int q \<or> r = - (of_int p / of_int q)))
                       \<and> hornerEval (coeffs P) r = 0}))
   \<and> (\<exists>P0. Poly (Sequence [6, - 5, 1]) None = Inr P0
          \<and> PolyRatRoots (PolyObj P0) = Inr [2, 3])"
proof (intro conjI impI)
  assume "coeffs P \<noteq> [] \<and> coeffs P ! 0 = of_int a0
      \<and> coeffs P ! (length (coeffs P) - 1) = of_int an \<and> a0 \<noteq> 0 \<and> an \<noteq> 0"
  then show "\<exists>roots. PolyRatRoots (PolyObj P) = Inr roots \<and> sorted roots \<and> distinct roots \<and>
       set roots = {r. (\<exists>p q. 0 < p \<and> p dvd \<bar>a0\<bar> \<and> 0 < q \<and> q dvd \<bar>an\<bar> \<and>
                              (r = of_int p / of_int q \<or> r = - (of_int p / of_int q)))
                       \<and> hornerEval (coeffs P) r = 0}"
    using PolyRatRoots_general[of P a0 an] by blast
next
  show "\<exists>P0. Poly (Sequence [6, - 5, 1]) None = Inr P0
          \<and> PolyRatRoots (PolyObj P0) = Inr [2, 3]"
    using PolyRatRoots_example by blast
qed

theorem PolyRatRoots_rational_root_theorem_witness:
  "\<exists>roots. PolyRatRoots (PolyObj \<lparr>coeffs = [6, - 5, 1], degree = 2,
                                    variable = Some ''x'', base = None\<rparr>) = Inr roots
      \<and> sorted roots \<and> distinct roots
      \<and> set roots = {r. (\<exists>p q. 0 < p \<and> p dvd \<bar>6::int\<bar> \<and> 0 < q \<and> q dvd \<bar>1::int\<bar> \<and>
                             (r = of_int p / of_int q \<or> r = - (of_int p / of_int q)))
                        \<and> hornerEval [6, - 5, 1] r = 0}"
  using PolyRatRoots_rational_root_theorem
          [of "\<lparr>coeffs = [6, - 5, 1], degree = 2, variable = Some ''x'', base = None\<rparr>" 6 1]
  by simp

end
